theory Spec2Isabelle
  imports Main
begin

section \<open>Arrays, exceptions and the object store\<close>

text \<open>
  The engine of \<^verbatim>\<open>env.py\<close> keeps its board in a numpy array that is mutated in
  place and handed out by reference. An array is modelled as a list of rows; the cells
  are the small whole numbers 0, 1 and 2 (numpy stores them as floats, which represent
  them exactly), so a cell is an \<open>int\<close>. Arrays live in a store, a list indexed by
  address, so that two names for one array are one address.
\<close>

datatype exn = ValueError | IndexError | UnboundLocalError

type_synonym ndarray = "int list list"
type_synonym addr = nat
type_synonym heap = "ndarray list"

definition zeros :: "nat \<Rightarrow> nat \<Rightarrow> ndarray" where
  "zeros r c = replicate r (replicate c 0)"

definition ones :: "nat \<Rightarrow> nat \<Rightarrow> ndarray" where
  "ones r c = replicate r (replicate c 1)"

text \<open>
  numpy's index along an axis of size \<open>n\<close>: \<open>0 .. n-1\<close> as it is, \<open>-n .. -1\<close>
  counted from the end, anything else raises IndexError.
\<close>

definition np_index :: "nat \<Rightarrow> int \<Rightarrow> nat option" where
  "np_index n i =
     (if 0 \<le> i \<and> i < int n then Some (nat i)
      else if - int n \<le> i \<and> i < 0 then Some (nat (i + int n))
      else None)"

definition getitem :: "ndarray \<Rightarrow> int \<Rightarrow> int \<Rightarrow> exn + int" where
  "getitem a r c =
     (case np_index (length a) r of
        None \<Rightarrow> Inl IndexError
      | Some i \<Rightarrow>
          (case np_index (length (a ! i)) c of
             None \<Rightarrow> Inl IndexError
           | Some j \<Rightarrow> Inr (a ! i ! j)))"

definition setitem :: "ndarray \<Rightarrow> int \<Rightarrow> int \<Rightarrow> int \<Rightarrow> exn + ndarray" where
  "setitem a r c v =
     (case np_index (length a) r of
        None \<Rightarrow> Inl IndexError
      | Some i \<Rightarrow>
          (case np_index (length (a ! i)) c of
             None \<Rightarrow> Inl IndexError
           | Some j \<Rightarrow> Inr (a[i := (a ! i)[j := v]])))"

text \<open>An item assignment through a reference: the array at that address changes.\<close>

definition store_setitem :: "heap \<Rightarrow> addr \<Rightarrow> int \<Rightarrow> int \<Rightarrow> int \<Rightarrow> exn + heap" where
  "store_setitem h a r c v =
     (case setitem (h ! a) r c v of
        Inl e \<Rightarrow> Inl e
      | Inr a' \<Rightarrow> Inr (h[a := a']))"

section \<open>The engine: class Connect4\<close>

record Connect4 =
  n_rows :: nat
  n_columns :: nat
  win_streak :: nat
  grid :: addr
  win_kernels :: "ndarray list"

text \<open>
  \<^verbatim>\<open>__init__\<close>: the two diagonal kernels start as zeros and get their ones in
  the loop \<^verbatim>\<open>for i in range(win_streak)\<close>; the indices \<open>i\<close> and
  \<open>win_streak-i-1\<close> lie in \<open>0 .. win_streak-1\<close>, so the assignments never raise.
  The kernels are never written after construction and are kept as values.
\<close>

definition put :: "ndarray \<Rightarrow> nat \<Rightarrow> nat \<Rightarrow> int \<Rightarrow> ndarray" where
  "put a i j v = a[i := (a ! i)[j := v]]"

definition kernel_step :: "nat \<Rightarrow> ndarray \<times> ndarray \<Rightarrow> nat \<Rightarrow> ndarray \<times> ndarray" where
  "kernel_step ws d i = (put (fst d) i i 1, put (snd d) i (ws - i - 1) 1)"

definition make_kernels :: "nat \<Rightarrow> ndarray list" where
  "make_kernels ws =
     (let h_win_kernel = ones 1 ws;
          v_win_kernel = ones ws 1;
          d = foldl (kernel_step ws) (zeros ws ws, zeros ws ws) [0..<ws]
      in [h_win_kernel, v_win_kernel, fst d, snd d])"

definition init :: "heap \<Rightarrow> nat \<Rightarrow> nat \<Rightarrow> nat \<Rightarrow> heap \<times> Connect4" where
  "init h nr nc ws =
     (h @ [zeros nr nc],
      \<lparr>n_rows = nr, n_columns = nc, win_streak = ws, grid = length h,
       win_kernels = make_kernels ws\<rparr>)"

text \<open>\<^verbatim>\<open>reset\<close> binds \<^verbatim>\<open>self.grid\<close> to a fresh array of zeros.\<close>

definition reset :: "heap \<Rightarrow> Connect4 \<Rightarrow> heap \<times> Connect4" where
  "reset h self =
     (h @ [zeros (n_rows self) (n_columns self)], self\<lparr>grid := length h\<rparr>)"

subsection \<open>make_move\<close>

text \<open>
  The loop \<^verbatim>\<open>for row in range(self.n_rows)\<close>. It reads through
  \<^verbatim>\<open>self.grid\<close> (address \<open>g\<close>) and writes through \<^verbatim>\<open>next_grid\<close>
  (address \<open>ng\<close>); the one write is followed by \<^verbatim>\<open>break\<close>.
\<close>

fun make_move_loop ::
  "heap \<Rightarrow> addr \<Rightarrow> addr \<Rightarrow> nat \<Rightarrow> int \<Rightarrow> int \<Rightarrow> nat list \<Rightarrow> exn + heap" where
  "make_move_loop h g ng nr player_id column [] = Inr h"
| "make_move_loop h g ng nr player_id column (row # rows) =
     (if row + 1 < nr then
        (case getitem (h ! g) (int row + 1) column of
           Inl e \<Rightarrow> Inl e
         | Inr v \<Rightarrow>
            if v = 0 then make_move_loop h g ng nr player_id column rows
            else store_setitem h ng (int row) column player_id)
      else store_setitem h ng (int row) column player_id)"

text \<open>
  \<^verbatim>\<open>next_grid = self.grid\<close> copies the reference, not the array. The result is
  the returned reference (or the exception), the store and the engine after the call.
\<close>

definition make_move ::
  "heap \<Rightarrow> Connect4 \<Rightarrow> int \<Rightarrow> int \<Rightarrow> bool \<Rightarrow> (exn + addr) \<times> heap \<times> Connect4" where
  "make_move h self player_id column imaginary =
     (let next_grid = grid self in
      case getitem (h ! grid self) 0 column of
        Inl e \<Rightarrow> (Inl e, h, self)
      | Inr v \<Rightarrow>
          if v \<noteq> 0 then (Inl ValueError, h, self)
          else
            (case make_move_loop h (grid self) next_grid (n_rows self) player_id column
                    [0..<n_rows self] of
               Inl e \<Rightarrow> (Inl e, h, self)
             | Inr h' \<Rightarrow>
                 (Inr next_grid, h',
                  if \<not> imaginary then self\<lparr>grid := next_grid\<rparr> else self)))"

subsection \<open>get_valid_moves\<close>

fun get_valid_moves_loop :: "ndarray \<Rightarrow> nat list \<Rightarrow> nat list \<Rightarrow> exn + nat list" where
  "get_valid_moves_loop a [] valid_columns = Inr valid_columns"
| "get_valid_moves_loop a (column # columns) valid_columns =
     (case getitem a 0 (int column) of
        Inl e \<Rightarrow> Inl e
      | Inr v \<Rightarrow>
          get_valid_moves_loop a columns
            (if v = 0 then valid_columns @ [column] else valid_columns))"

text \<open>The method assigns to nothing but its local list; the state is returned as it was.\<close>

definition get_valid_moves :: "heap \<Rightarrow> Connect4 \<Rightarrow> (exn + nat list) \<times> heap \<times> Connect4" where
  "get_valid_moves h self =
     (get_valid_moves_loop (h ! grid self) [0..<n_columns self] [], h, self)"

subsection \<open>check_win\<close>

text \<open>
  \<^verbatim>\<open>scipy.signal.convolve2d(in1, in2, mode="full")\<close> with the default zero fill:
  the output has \<open>r1 + r2 - 1\<close> rows and \<open>c1 + c2 - 1\<close> columns and
  \<open>out[i,j]\<close> is the sum of \<open>in2[a,b] * in1[i-a,j-b]\<close> over the positions of
  \<open>in2\<close> for which \<open>(i-a, j-b)\<close> lies inside \<open>in1\<close>. Both arrays are non-empty here.
\<close>

definition ncols :: "ndarray \<Rightarrow> nat" where
  "ncols a = (case a of [] \<Rightarrow> 0 | row # _ \<Rightarrow> length row)"

definition conv_at :: "ndarray \<Rightarrow> ndarray \<Rightarrow> nat \<Rightarrow> nat \<Rightarrow> int" where
  "conv_at in1 in2 i j =
     sum_list (map (\<lambda>a. sum_list (map (\<lambda>b.
        if a \<le> i \<and> i - a < length in1 \<and> b \<le> j \<and> j - b < ncols in1
        then in2 ! a ! b * in1 ! (i - a) ! (j - b) else 0)
       [0..<ncols in2])) [0..<length in2])"

definition convolve2d :: "ndarray \<Rightarrow> ndarray \<Rightarrow> ndarray" where
  "convolve2d in1 in2 =
     map (\<lambda>i. map (\<lambda>j. conv_at in1 in2 i j) [0..<ncols in1 + ncols in2 - 1])
       [0..<length in1 + length in2 - 1]"

text \<open>\<^verbatim>\<open>self.grid == player_id\<close>, with True and False as the numbers 1 and 0.\<close>

definition player_pieces :: "ndarray \<Rightarrow> int \<Rightarrow> ndarray" where
  "player_pieces a player_id = map (map (\<lambda>v. if v = player_id then 1 else 0)) a"

definition np_any_ge :: "ndarray \<Rightarrow> int \<Rightarrow> bool" where
  "np_any_ge a t = list_ex (list_ex (\<lambda>v. t \<le> v)) a"

text \<open>
  The loop over the kernels. \<^verbatim>\<open>has_won\<close> is bound by the loop body only, so
  returning it after a loop over no kernels raises UnboundLocalError.
\<close>

fun check_win_loop :: "ndarray \<Rightarrow> nat \<Rightarrow> ndarray list \<Rightarrow> bool option \<Rightarrow> exn + bool" where
  "check_win_loop pieces ws [] has_won =
     (case has_won of None \<Rightarrow> Inl UnboundLocalError | Some b \<Rightarrow> Inr b)"
| "check_win_loop pieces ws (krnl # krnls) has_won =
     (let win_mask = convolve2d pieces krnl;
          has_won' = np_any_ge win_mask (int ws)
      in if has_won' then Inr has_won'
         else check_win_loop pieces ws krnls (Some has_won'))"

definition check_win :: "heap \<Rightarrow> Connect4 \<Rightarrow> int \<Rightarrow> exn + bool" where
  "check_win h self player_id =
     check_win_loop (player_pieces (h ! grid self) player_id) (win_streak self)
       (win_kernels self) None"

section \<open>Boards, legal play and the notions the properties use\<close>

text \<open>
  What \<^verbatim>\<open>__init__\<close> establishes and every method keeps: the engine's reference
  points into the store, the array has \<open>n_rows\<close> rows of \<open>n_columns\<close> cells, and the
  kernels are the ones built from \<open>win_streak\<close>.
\<close>

definition well_formed :: "heap \<Rightarrow> Connect4 \<Rightarrow> bool" where
  "well_formed h self \<longleftrightarrow>
     grid self < length h \<and>
     length (h ! grid self) = n_rows self \<and>
     list_all (\<lambda>row. length row = n_columns self) (h ! grid self) \<and>
     win_kernels self = make_kernels (win_streak self)"

text \<open>The cell of the engine's stored board at a row and a column.\<close>

definition cell :: "heap \<Rightarrow> Connect4 \<Rightarrow> nat \<Rightarrow> nat \<Rightarrow> int" where
  "cell h self r c = h ! grid self ! r ! c"

text \<open>
  The states of legal play: a freshly constructed engine, a reset, and a move by player
  1 or 2 into a column that \<^verbatim>\<open>get_valid_moves\<close> lists, simulated or committed.
\<close>

inductive reachable :: "heap \<Rightarrow> Connect4 \<Rightarrow> bool" where
  fresh: "init h0 nr nc ws = (h, self) \<Longrightarrow> reachable h self"
| after_reset: "reachable h self \<Longrightarrow> reset h self = (h', self') \<Longrightarrow> reachable h' self'"
| after_move:
    "reachable h self \<Longrightarrow>
     get_valid_moves h self = (Inr valid_columns, h1, self1) \<Longrightarrow>
     column \<in> set valid_columns \<Longrightarrow>
     player_id = 1 \<or> player_id = 2 \<Longrightarrow>
     make_move h self player_id (int column) imaginary = (Inr b, h', self') \<Longrightarrow>
     reachable h' self'"

text \<open>
  Gravity, column by column: after the leading empty cells of a column (read from the
  top row down) no empty cell follows.
\<close>

definition column_of :: "ndarray \<Rightarrow> nat \<Rightarrow> int list" where
  "column_of a c = map (\<lambda>row. row ! c) a"

definition gravity :: "heap \<Rightarrow> Connect4 \<Rightarrow> bool" where
  "gravity h self \<longleftrightarrow>
     list_all (\<lambda>c. list_all (\<lambda>v. v \<noteq> 0) (dropWhile (\<lambda>v. v = 0) (column_of (h ! grid self) c)))
       [0..<n_columns self]"

text \<open>The lowest empty cell of a column: the largest row index whose cell is 0.\<close>

definition lowest_empty :: "ndarray \<Rightarrow> nat \<Rightarrow> nat option" where
  "lowest_empty a c =
     (case filter (\<lambda>r. a ! r ! c = 0) (rev [0..<length a]) of
        [] \<Rightarrow> None
      | r # _ \<Rightarrow> Some r)"

text \<open>The positions at which two boards of one shape differ, in row-major order.\<close>

definition diff_cells :: "ndarray \<Rightarrow> ndarray \<Rightarrow> (nat \<times> nat) list" where
  "diff_cells a b =
     concat (map (\<lambda>r. map (\<lambda>c. (r, c))
       (filter (\<lambda>c. a ! r ! c \<noteq> b ! r ! c) [0..<length (a ! r)])) [0..<length a])"

definition board_full :: "heap \<Rightarrow> Connect4 \<Rightarrow> bool" where
  "board_full h self \<longleftrightarrow> list_all (list_all (\<lambda>v. v \<noteq> 0)) (h ! grid self)"

text \<open>A caller committing a list of (player, column) moves one after the other.\<close>

fun play_moves :: "heap \<times> Connect4 \<Rightarrow> (int \<times> int) list \<Rightarrow> heap \<times> Connect4" where
  "play_moves s [] = s"
| "play_moves s (m # ms) =
     play_moves (snd (make_move (fst s) (snd s) (fst m) (snd m) False)) ms"

text \<open>
  The win condition in the specification's words: one of the four patterns of length
  \<open>win_streak\<close> (horizontal, vertical, diagonal down-right, diagonal down-left), placed
  so that all of its cells lie on the board, is covered by the player's pieces.
\<close>

definition covered :: "ndarray \<Rightarrow> int \<Rightarrow> (nat \<times> nat) list \<Rightarrow> bool" where
  "covered a player_id cells = list_all (\<lambda>rc. a ! fst rc ! snd rc = player_id) cells"

definition horizontal :: "nat \<Rightarrow> nat \<Rightarrow> nat \<Rightarrow> (nat \<times> nat) list" where
  "horizontal ws r c = map (\<lambda>t. (r, c + t)) [0..<ws]"

definition vertical :: "nat \<Rightarrow> nat \<Rightarrow> nat \<Rightarrow> (nat \<times> nat) list" where
  "vertical ws r c = map (\<lambda>t. (r + t, c)) [0..<ws]"

definition diagonal_down_right :: "nat \<Rightarrow> nat \<Rightarrow> nat \<Rightarrow> (nat \<times> nat) list" where
  "diagonal_down_right ws r c = map (\<lambda>t. (r + t, c + t)) [0..<ws]"

definition diagonal_down_left :: "nat \<Rightarrow> nat \<Rightarrow> nat \<Rightarrow> (nat \<times> nat) list" where
  "diagonal_down_left ws r c = map (\<lambda>t. (r + t, c + (ws - 1 - t))) [0..<ws]"

text \<open>
  Each pattern is anchored at its top-left corner \<open>(r, c)\<close>; the horizontal one spans
  \<open>ws\<close> columns, the vertical one \<open>ws\<close> rows, the diagonals both.
\<close>

definition streak_spec :: "nat \<Rightarrow> nat \<Rightarrow> nat \<Rightarrow> ndarray \<Rightarrow> int \<Rightarrow> bool" where
  "streak_spec nr nc ws a player_id \<longleftrightarrow>
     list_ex (\<lambda>r. list_ex (\<lambda>c.
        (r < nr \<and> c + ws \<le> nc \<and> covered a player_id (horizontal ws r c)) \<or>
        (r + ws \<le> nr \<and> c < nc \<and> covered a player_id (vertical ws r c)) \<or>
        (r + ws \<le> nr \<and> c + ws \<le> nc \<and> covered a player_id (diagonal_down_right ws r c)) \<or>
        (r + ws \<le> nr \<and> c + ws \<le> nc \<and> covered a player_id (diagonal_down_left ws r c)))
       [0..<nc]) [0..<nr]"

text \<open>The board of the specification's example: player 1 on row 5, columns 0 to 3.\<close>

definition row5_board :: ndarray where
  "row5_board = replicate 5 (replicate 7 0) @ [[1, 1, 1, 1, 0, 0, 0]]"

text \<open>
  Concrete engines for the examples: \<^verbatim>\<open>Connect4()\<close> with its defaults in an
  empty store, and the same engine after five and after six committed moves into
  column 0.
\<close>

definition default_engine :: "heap \<times> Connect4" where
  "default_engine = init [] 6 7 4"

definition column0_five :: "heap \<times> Connect4" where
  "column0_five = play_moves default_engine [(1, 0), (2, 0), (1, 0), (2, 0), (1, 0)]"

definition column0_full :: "heap \<times> Connect4" where
  "column0_full =
     play_moves default_engine [(1, 0), (2, 0), (1, 0), (2, 0), (1, 0), (2, 0)]"

text \<open>Every cell holds one of the three marks: 0 (empty), 1 or 2.\<close>

definition cells_ok :: "heap \<Rightarrow> Connect4 \<Rightarrow> bool" where
  "cells_ok h self \<longleftrightarrow>
     list_all (list_all (\<lambda>v. v = 0 \<or> v = 1 \<or> v = 2)) (h ! grid self)"

text \<open>The default engine after player 1 has committed a move into column 3.\<close>

definition after_first_move :: "heap \<times> Connect4" where
  "after_first_move = play_moves default_engine [(1, 3)]"

text \<open>An array of \<open>r\<close> rows with \<open>c\<close> cells each.\<close>

definition shape :: "ndarray \<Rightarrow> nat \<Rightarrow> nat \<Rightarrow> bool" where
  "shape a r c \<longleftrightarrow> length a = r \<and> (\<forall>i<r. length (a ! i) = c)"

text \<open>
  For the output position \<open>(i, j)\<close> of the convolution, the kernel position
  \<open>(x, y)\<close> meets the board cell \<open>(i - x, j - y)\<close>; it is a hit when that cell
  lies on the board and holds the player's mark.
\<close>

definition hit :: "ndarray \<Rightarrow> int \<Rightarrow> nat \<Rightarrow> nat \<Rightarrow> nat \<Rightarrow> nat \<Rightarrow> bool" where
  "hit a p i j x y \<longleftrightarrow>
     x \<le> i \<and> i - x < length a \<and> y \<le> j \<and> j - y < ncols a \<and> a ! (i - x) ! (j - y) = p"

section \<open>Indexing and the drop loop\<close>

lemma np_index_nat [simp]: "i < n \<Longrightarrow> np_index n (int i) = Some i"
  by (simp add: np_index_def)


lemma np_index_zero [simp]: "0 < n \<Longrightarrow> np_index n 0 = Some 0"
  by (simp add: np_index_def)

lemma np_index_succ [simp]: "Suc i < n \<Longrightarrow> np_index n (int i + 1) = Some (Suc i)"
  by (auto simp add: np_index_def)



lemma wf_row_length:
  "well_formed h self \<Longrightarrow> r < n_rows self \<Longrightarrow> length (h ! grid self ! r) = n_columns self"
  by (auto simp: well_formed_def list_all_length)

lemma make_move_loop_result:
  assumes len: "length (h ! a) = nr"
    and rows: "\<And>r. r < nr \<Longrightarrow> length (h ! a ! r) = nc"
    and col: "np_index nc column = Some c"
    and k: "k < nr"
  shows "\<exists>r. k \<le> r \<and> r < nr \<and> (\<forall>j. k < j \<and> j \<le> r \<longrightarrow> h ! a ! j ! c = 0) \<and>
           (r + 1 < nr \<longrightarrow> h ! a ! (r + 1) ! c \<noteq> 0) \<and>
           make_move_loop h a a nr p column [k..<nr] = Inr (h[a := put (h ! a) r c p])"
  using k
proof (induction "nr - k" arbitrary: k)
  case 0
  then show ?case by simp
next
  case (Suc d)
  have upt: "[k..<nr] = k # [Suc k..<nr]"
    using Suc.prems by (simp add: upt_conv_Cons)
  have set_k: "store_setitem h a (int k) column p = Inr (h[a := put (h ! a) k c p])"
    using Suc.prems len rows col by (simp add: store_setitem_def setitem_def put_def)
  show ?case
  proof (cases "Suc k < nr")
    case False
    then show ?thesis
      using Suc.prems upt set_k by (intro exI[of _ k]) auto
  next
    case True
    have get: "getitem (h ! a) (int k + 1) column = Inr (h ! a ! Suc k ! c)"
      using True len rows col by (simp add: getitem_def)
    show ?thesis
    proof (cases "h ! a ! Suc k ! c = 0")
      case False
      then show ?thesis
        using True upt set_k get by (intro exI[of _ k]) auto
    next
      case z: True
      have "d = nr - Suc k" using Suc.hyps(2) by simp
      from Suc.hyps(1)[OF this True] obtain r where r:
        "Suc k \<le> r" "r < nr" "\<forall>j. Suc k < j \<and> j \<le> r \<longrightarrow> h ! a ! j ! c = 0"
        "r + 1 < nr \<longrightarrow> h ! a ! (r + 1) ! c \<noteq> 0"
        "make_move_loop h a a nr p column [Suc k..<nr] = Inr (h[a := put (h ! a) r c p])"
        by blast
      have "\<forall>j. k < j \<and> j \<le> r \<longrightarrow> h ! a ! j ! c = 0"
        using r(3) z by (metis Suc_lessI)
      then show ?thesis
        using True upt get z r by (intro exI[of _ r]) auto
    qed
  qed
qed

lemma make_move_ok:
  assumes wf: "well_formed h self"
    and col: "np_index (n_columns self) column = Some c"
    and nr: "0 < n_rows self"
    and top: "h ! grid self ! 0 ! c = 0"
  shows "\<exists>r. r < n_rows self \<and> (\<forall>j\<le>r. h ! grid self ! j ! c = 0) \<and>
           (r + 1 < n_rows self \<longrightarrow> h ! grid self ! (r + 1) ! c \<noteq> 0) \<and>
           make_move h self p column im =
             (Inr (grid self), h[grid self := put (h ! grid self) r c p], self)"
proof -
  have len: "length (h ! grid self) = n_rows self"
    using wf by (simp add: well_formed_def)
  have rows: "\<And>r. r < n_rows self \<Longrightarrow> length (h ! grid self ! r) = n_columns self"
    using wf by (rule wf_row_length)
  from make_move_loop_result[OF len rows col nr, of p] obtain r where r:
    "r < n_rows self" "\<forall>j. 0 < j \<and> j \<le> r \<longrightarrow> h ! grid self ! j ! c = 0"
    "r + 1 < n_rows self \<longrightarrow> h ! grid self ! (r + 1) ! c \<noteq> 0"
    "make_move_loop h (grid self) (grid self) (n_rows self) p column [0..<n_rows self]
       = Inr (h[grid self := put (h ! grid self) r c p])"
    by blast
  have get: "getitem (h ! grid self) 0 column = Inr 0"
    using len rows[OF nr] col nr top by (simp add: getitem_def)
  have "\<forall>j\<le>r. h ! grid self ! j ! c = 0"
    using r(2) top by (metis gr0I)
  then show ?thesis
    using r get by (intro exI[of _ r]) (simp add: make_move_def Let_def)
qed

section \<open>Lists of rows and columns\<close>

lemma concat_map_empty: "(\<And>x. x \<in> set xs \<Longrightarrow> f x = []) \<Longrightarrow> concat (map f xs) = []"
  by (induction xs) auto

lemma upt_split: "r < n \<Longrightarrow> [0..<n] = [0..<r] @ r # [Suc r..<n]"
proof -
  assume r: "r < n"
  have "[0..<n] = [0..<r] @ [r..<n]"
    using r upt_add_eq_append[of 0 r "n - r"] by simp
  moreover have "[r..<n] = r # [Suc r..<n]"
    using r by (rule upt_conv_Cons)
  ultimately show ?thesis by simp
qed

lemma filter_upt_single:
  assumes "c < m" "P c" "\<And>j. j < m \<Longrightarrow> j \<noteq> c \<Longrightarrow> \<not> P j"
  shows "filter P [0..<m] = [c]"
proof -
  have "filter P [0..<c] = []" using assms by (auto simp: filter_empty_conv)
  moreover have "filter P [Suc c..<m] = []" using assms by (auto simp: filter_empty_conv)
  ultimately show ?thesis using assms(1,2) by (simp add: upt_split[OF assms(1)])
qed

lemma diff_cells_same: "diff_cells a a = []"
  by (simp add: diff_cells_def concat_map_empty)

lemma diff_cells_put:
  assumes r: "r < length a" and c: "c < length (a ! r)" and v: "a ! r ! c \<noteq> v"
  shows "diff_cells a (put a r c v) = [(r, c)]"
proof -
  let ?f = "\<lambda>i. map (\<lambda>j. (i, j))
       (filter (\<lambda>j. a ! i ! j \<noteq> put a r c v ! i ! j) [0..<length (a ! i)])"
  have other: "?f i = []" if "i < length a" "i \<noteq> r" for i
    using that by (simp add: put_def)
  have "filter (\<lambda>j. a ! r ! j \<noteq> put a r c v ! r ! j) [0..<length (a ! r)] = [c]"
    using r c v by (intro filter_upt_single) (auto simp: put_def nth_list_update)
  then have this_row: "?f r = [(r, c)]" by simp
  have "concat (map ?f [0..<r]) = []"
    using r other by (intro concat_map_empty) auto
  moreover have "concat (map ?f [Suc r..<length a]) = []"
    using r other by (intro concat_map_empty) auto
  moreover have "concat (map ?f [0..<length a]) =
      concat (map ?f [0..<r]) @ ?f r @ concat (map ?f [Suc r..<length a])"
    by (simp add: upt_split[OF r])
  ultimately have "concat (map ?f [0..<length a]) = [(r, c)]"
    by (simp only: this_row append_Nil append_Nil2)
  then show ?thesis by (simp add: diff_cells_def)
qed

lemma lowest_empty_eq:
  assumes r: "r < length a" and z: "a ! r ! c = 0"
    and below: "\<And>j. r < j \<Longrightarrow> j < length a \<Longrightarrow> a ! j ! c \<noteq> 0"
  shows "lowest_empty a c = Some r"
proof -
  have "filter (\<lambda>i. a ! i ! c = 0) (rev [Suc r..<length a]) = []"
    using below by (auto simp: filter_empty_conv)
  then show ?thesis
    using z by (simp add: lowest_empty_def upt_split[OF r])
qed

lemma gravity_col_iff:
  "list_all (\<lambda>v. v \<noteq> 0) (dropWhile (\<lambda>v. v = 0) xs) \<longleftrightarrow>
     (\<exists>k\<le>length xs. \<forall>r<length xs. (xs ! r = (0::int)) = (r < k))"
proof
  assume L: "list_all (\<lambda>v. v \<noteq> 0) (dropWhile (\<lambda>v. v = 0) xs)"
  define k where "k = length (takeWhile (\<lambda>v. v = 0) xs)"
  have dw: "dropWhile (\<lambda>v. v = 0) xs = drop k xs"
    unfolding k_def by (rule dropWhile_eq_drop)
  have kle: "k \<le> length xs"
    unfolding k_def by (rule length_takeWhile_le)
  have "(xs ! r = 0) = (r < k)" if rl: "r < length xs" for r
  proof (cases "r < k")
    case True
    then have "xs ! r = takeWhile (\<lambda>v. v = 0) xs ! r"
      unfolding k_def by (simp add: takeWhile_nth)
    moreover have "takeWhile (\<lambda>v. v = 0) xs ! r \<in> set (takeWhile (\<lambda>v. v = 0) xs)"
      using True unfolding k_def by simp
    ultimately have "xs ! r \<in> set (takeWhile (\<lambda>v. v = 0) xs)" by simp
    then have "xs ! r = 0" by (rule set_takeWhileD[THEN conjunct2])
    then show ?thesis using True by simp
  next
    case False
    then have "xs ! r = drop k xs ! (r - k)" using rl by simp
    moreover have "r - k < length (drop k xs)" using rl False by simp
    ultimately have "xs ! r \<in> set (drop k xs)" by (metis nth_mem)
    then have "xs ! r \<noteq> 0" using L unfolding dw list_all_iff by blast
    then show ?thesis using False by simp
  qed
  then show "\<exists>k\<le>length xs. \<forall>r<length xs. (xs ! r = 0) = (r < k)"
    using kle by blast
next
  assume "\<exists>k\<le>length xs. \<forall>r<length xs. (xs ! r = 0) = (r < k)"
  then obtain k where k: "k \<le> length xs" "\<forall>r<length xs. (xs ! r = 0) = (r < k)" by blast
  have "takeWhile (\<lambda>v. v = 0) xs = take k xs"
  proof (rule takeWhile_eq_take_P_nth)
    show "xs ! i = 0" if "i < k" "i < length xs" for i using that k(2) by blast
    show "\<not> xs ! k = 0" if "k < length xs" using that k(2) by blast
  qed
  then have "length (takeWhile (\<lambda>v. v = 0) xs) = k" using k(1) by simp
  then have dw: "dropWhile (\<lambda>v. v = 0) xs = drop k xs"
    using dropWhile_eq_drop[of "\<lambda>v. v = 0" xs] by simp
  have "drop k xs ! i \<noteq> 0" if "i < length (drop k xs)" for i
  proof -
    have "k + i < length xs" using that by simp
    then have "xs ! (k + i) \<noteq> 0" using k(2) by simp
    then show ?thesis using k(1) by simp
  qed
  then show "list_all (\<lambda>v. v \<noteq> 0) (dropWhile (\<lambda>v. v = 0) xs)"
    unfolding dw list_all_length by blast
qed

lemma list_all_upt: "list_all P [0..<n] \<longleftrightarrow> (\<forall>c<n. P c)"
  by (simp add: list_all_iff Ball_def)

lemma gravity_iff:
  assumes "well_formed h self"
  shows "gravity h self \<longleftrightarrow>
     (\<forall>c<n_columns self. \<exists>k\<le>n_rows self. \<forall>r<n_rows self. (cell h self r c = 0) = (r < k))"
proof -
  have len: "length (h ! grid self) = n_rows self"
    using assms by (simp add: well_formed_def)
  have "gravity h self \<longleftrightarrow>
      (\<forall>c<n_columns self. list_all (\<lambda>v. v \<noteq> 0)
         (dropWhile (\<lambda>v. v = 0) (column_of (h ! grid self) c)))"
    unfolding gravity_def list_all_upt ..
  also have "\<dots> \<longleftrightarrow> (\<forall>c<n_columns self. \<exists>k\<le>length (column_of (h ! grid self) c).
      \<forall>r<length (column_of (h ! grid self) c). (column_of (h ! grid self) c ! r = 0) = (r < k))"
    by (simp only: gravity_col_iff)
  also have "\<dots> \<longleftrightarrow> (\<forall>c<n_columns self. \<exists>k\<le>n_rows self.
      \<forall>r<n_rows self. (cell h self r c = 0) = (r < k))"
    by (simp add: column_of_def len cell_def)
  finally show ?thesis .
qed

section \<open>Properties of make_move\<close>

lemma wf_len: "well_formed h self \<Longrightarrow> length (h ! grid self) = n_rows self"
  by (simp add: well_formed_def)

lemma wf_addr: "well_formed h self \<Longrightarrow> grid self < length h"
  by (simp add: well_formed_def)

lemma getitem_top:
  assumes "well_formed h self" "0 < n_rows self" "np_index (n_columns self) column = Some c"
  shows "getitem (h ! grid self) 0 column = Inr (h ! grid self ! 0 ! c)"
  using assms wf_row_length[OF assms(1,2)] by (simp add: getitem_def wf_len)






text \<open>
  Claim C6. On any board, a move into an in-range column whose topmost cell is occupied
  raises ValueError (the specification's IllegalMove), for either value of
  \<^verbatim>\<open>imaginary\<close>, and leaves the store and the engine as they were: the check comes
  before any write.
\<close>
theorem full_column_rejected:
  assumes "well_formed h self" and "0 < n_rows self" and "c < n_columns self"
    and "cell h self 0 c \<noteq> 0"
  shows "make_move h self player_id (int c) imaginary = (Inl ValueError, h, self)"
proof -
  have "getitem (h ! grid self) 0 (int c) = Inr (cell h self 0 c)"
    using assms(1-3) by (simp add: getitem_top cell_def)
  then show ?thesis using assms(4) by (simp add: make_move_def)
qed

theorem full_column_rejected_witness:
  "well_formed (fst column0_full) (snd column0_full) \<and>
   cell (fst column0_full) (snd column0_full) 0 0 = 2 \<and>
   make_move (fst column0_full) (snd column0_full) 1 (int 0) True
     = (Inl ValueError, fst column0_full, snd column0_full) \<and>
   make_move (fst column0_full) (snd column0_full) 1 (int 0) False
     = (Inl ValueError, fst column0_full, snd column0_full)"
proof -
  have wf: "well_formed (fst column0_full) (snd column0_full)" by code_simp
  have nr: "0 < n_rows (snd column0_full)" by code_simp
  have c: "0 < n_columns (snd column0_full)" by code_simp
  have top: "cell (fst column0_full) (snd column0_full) 0 0 = 2" by code_simp
  then have occ: "cell (fst column0_full) (snd column0_full) 0 0 \<noteq> 0" by simp
  show ?thesis
    using wf top full_column_rejected[OF wf nr c occ, of 1 True]
      full_column_rejected[OF wf nr c occ, of 1 False]
    by simp
qed

text \<open>
  Claim C10. The player argument is never validated: into a column whose topmost cell is
  empty, a move with \<open>player_id = 0\<close> raises nothing and returns the board with every
  cell unchanged, so no cell differs between the board before and after.
\<close>
theorem empty_mark_changes_nothing:
  assumes "well_formed h self" and "0 < n_rows self" and "c < n_columns self"
    and "cell h self 0 c = 0"
  shows "make_move h self 0 (int c) imaginary = (Inr (grid self), h, self) \<and>
         diff_cells (h ! grid self)
           (fst (snd (make_move h self 0 (int c) imaginary)) ! grid self) = []"
proof -
  have col: "np_index (n_columns self) (int c) = Some c" using assms(3) by simp
  from make_move_ok[OF assms(1) col assms(2), of 0 imaginary] assms(4)
  obtain r where r: "r < n_rows self" "\<forall>j\<le>r. h ! grid self ! j ! c = 0"
    "make_move h self 0 (int c) imaginary =
       (Inr (grid self), h[grid self := put (h ! grid self) r c 0], self)"
    unfolding cell_def by blast
  have "h ! grid self ! r ! c = 0" using r(2) by simp
  then have "put (h ! grid self) r c 0 = h ! grid self"
    by (simp add: put_def list_update_same_conv) (metis list_update_id)
  then have "h[grid self := put (h ! grid self) r c 0] = h" by simp
  with r(3) have mm: "make_move h self 0 (int c) imaginary = (Inr (grid self), h, self)"
    by simp
  show ?thesis unfolding mm by (simp add: diff_cells_same)
qed

theorem empty_mark_changes_nothing_witness:
  "well_formed (fst default_engine) (snd default_engine) \<and>
   cell (fst default_engine) (snd default_engine) 0 3 = 0 \<and>
   make_move (fst default_engine) (snd default_engine) 0 (int 3) False
     = (Inr (grid (snd default_engine)), fst default_engine, snd default_engine)"
proof -
  have wf: "well_formed (fst default_engine) (snd default_engine)" by code_simp
  have nr: "0 < n_rows (snd default_engine)" by code_simp
  have c: "3 < n_columns (snd default_engine)" by code_simp
  have top: "cell (fst default_engine) (snd default_engine) 0 3 = 0" by code_simp
  show ?thesis
    using wf top empty_mark_changes_nothing[OF wf nr c top, of False] by simp
qed




text \<open>
  Claim C5. On a board that satisfies gravity, for player 1 or 2 and an in-range column
  whose topmost cell is empty, a committed move writes the player's mark into the lowest
  empty cell of the column (the largest row index holding 0), and that cell is the only
  one in which the board before and the board after differ.
\<close>
theorem gravity_drop:
  assumes wf: "well_formed h self" and grav: "gravity h self"
    and player: "player_id = 1 \<or> player_id = 2"
    and nr: "0 < n_rows self" and c: "c < n_columns self" and top: "cell h self 0 c = 0"
  shows "\<exists>r h'. lowest_empty (h ! grid self) c = Some r \<and>
           make_move h self player_id (int c) False = (Inr (grid self), h', self) \<and>
           cell h' self r c = player_id \<and>
           diff_cells (h ! grid self) (h' ! grid self) = [(r, c)]"
proof -
  let ?g = "h ! grid self"
  have col: "np_index (n_columns self) (int c) = Some c" using c by simp
  from make_move_ok[OF wf col nr, of player_id False] top
  obtain r where r: "r < n_rows self" "\<forall>j\<le>r. ?g ! j ! c = 0"
    "r + 1 < n_rows self \<longrightarrow> ?g ! (r + 1) ! c \<noteq> 0"
    "make_move h self player_id (int c) False =
       (Inr (grid self), h[grid self := put ?g r c player_id], self)"
    unfolding cell_def by blast
  from grav c obtain k where k: "k \<le> n_rows self"
    "\<forall>j<n_rows self. (?g ! j ! c = 0) = (j < k)"
    unfolding gravity_iff[OF wf] cell_def by blast
  have rz: "?g ! r ! c = 0" using r(2) by simp
  then have "r < k" using k(2) r(1) by simp
  moreover have "\<not> r + 1 < k" using k r(3) by auto
  ultimately have keq: "k = r + 1" by simp
  have below: "?g ! j ! c \<noteq> 0" if "r < j" "j < length ?g" for j
    using that k(2) keq by (simp add: wf_len[OF wf])
  have low: "lowest_empty ?g c = Some r"
    using r(1) rz below by (intro lowest_empty_eq) (simp_all add: wf_len[OF wf])
  have rl: "r < length ?g" using r(1) by (simp add: wf_len[OF wf])
  have cl: "c < length (?g ! r)" using c r(1) by (simp add: wf_row_length[OF wf])
  have ne: "?g ! r ! c \<noteq> player_id" using rz player by auto
  have diff: "diff_cells ?g (put ?g r c player_id) = [(r, c)]"
    using rl cl ne by (rule diff_cells_put)
  have a: "grid self < length h" using wf by (rule wf_addr)
  have cellp: "cell (h[grid self := put ?g r c player_id]) self r c = player_id"
    using a rl cl by (simp add: cell_def put_def)
  show ?thesis
    using low r(4) cellp diff a by (intro exI[of _ r] exI[of _ "h[grid self := put ?g r c player_id]"]) simp
qed

theorem gravity_drop_witness:
  "well_formed (fst column0_five) (snd column0_five) \<and>
   gravity (fst column0_five) (snd column0_five) \<and>
   cell (fst column0_five) (snd column0_five) 0 0 = 0 \<and>
   (\<exists>h'. lowest_empty (fst column0_five ! grid (snd column0_five)) 0 = Some 0 \<and>
      make_move (fst column0_five) (snd column0_five) 2 (int 0) False
        = (Inr (grid (snd column0_five)), h', snd column0_five) \<and>
      cell h' (snd column0_five) 0 0 = 2 \<and>
      diff_cells (fst column0_five ! grid (snd column0_five)) (h' ! grid (snd column0_five))
        = [(0, 0)])"
proof -
  have wf: "well_formed (fst column0_five) (snd column0_five)" by code_simp
  have g: "gravity (fst column0_five) (snd column0_five)" by code_simp
  have nr: "0 < n_rows (snd column0_five)" by code_simp
  have c: "0 < n_columns (snd column0_five)" by code_simp
  have top: "cell (fst column0_five) (snd column0_five) 0 0 = 0" by code_simp
  have low: "lowest_empty (fst column0_five ! grid (snd column0_five)) 0 = Some 0" by code_simp
  from gravity_drop[OF wf g _ nr c top, of 2] low
  show ?thesis using wf g top by auto
qed

text \<open>
  The flag \<^verbatim>\<open>imaginary\<close> changes nothing: rebinding \<^verbatim>\<open>self.grid\<close> to
  \<^verbatim>\<open>next_grid\<close> rebinds it to the array it already names, so the simulated and the
  committed call return the same reference, store and engine.
\<close>

lemma imaginary_has_no_effect:
  "make_move h self player_id column True = make_move h self player_id column False"
proof -
  have "self\<lparr>grid := grid self\<rparr> = self" by simp
  then show ?thesis by (simp add: make_move_def Let_def split: sum.splits)
qed

text \<open>
  Claim C1. The claim is that a simulated move leaves the engine's stored board as it
  was. The code does not: \<^verbatim>\<open>next_grid\<close> is the stored array itself, so the write
  of the loop lands in it whatever \<^verbatim>\<open>imaginary\<close> is. On the default engine a
  simulated move of player 1 into column 0 returns the stored array's own reference, and
  the stored board, all zeros before, differs afterwards in cell \<open>(5, 0)\<close>.
\<close>

theorem simulated_move_mutates_stored_board:
  "fst (make_move (fst default_engine) (snd default_engine) 1 0 True) = Inr 0 \<and>
   grid (snd default_engine) = 0 \<and>
   grid (snd (snd (make_move (fst default_engine) (snd default_engine) 1 0 True))) = 0 \<and>
   fst default_engine ! 0 = zeros 6 7 \<and>
   fst (snd (make_move (fst default_engine) (snd default_engine) 1 0 True)) ! 0
     = replicate 5 (replicate 7 0) @ [[1, 0, 0, 0, 0, 0, 0]] \<and>
   diff_cells (fst default_engine ! 0)
     (fst (snd (make_move (fst default_engine) (snd default_engine) 1 0 True)) ! 0) = [(5, 0)]"
  by code_simp

text \<open>
  Claim C3. The claim is that a move simulated and then committed yields two identical
  boards. Because the simulated move already writes into the stored array, the committed
  move that follows is applied to a board that holds the simulated piece. After five
  moves into column 0 of the default engine the column is still in
  \<^verbatim>\<open>get_valid_moves\<close>; the simulated move fills it and the committed move then
  raises ValueError, so there is no second board. On the empty default board the
  simulated call leaves one piece in column 0 and the committed call that follows leaves
  two.
\<close>

theorem simulate_then_commit_diverge:
  "fst (get_valid_moves (fst column0_five) (snd column0_five)) = Inr [0, 1, 2, 3, 4, 5, 6] \<and>
   fst (make_move (fst column0_five) (snd column0_five) 2 0 True) = Inr 0 \<and>
   fst (make_move
     (fst (snd (make_move (fst column0_five) (snd column0_five) 2 0 True)))
     (snd (snd (make_move (fst column0_five) (snd column0_five) 2 0 True))) 2 0 False)
     = Inl ValueError \<and>
   fst (snd (make_move (fst default_engine) (snd default_engine) 1 0 True)) ! 0
     = replicate 5 (replicate 7 0) @ [[1, 0, 0, 0, 0, 0, 0]] \<and>
   fst (snd (make_move
     (fst (snd (make_move (fst default_engine) (snd default_engine) 1 0 True)))
     (snd (snd (make_move (fst default_engine) (snd default_engine) 1 0 True))) 1 0 False)) ! 0
     = replicate 4 (replicate 7 0) @ [[1, 0, 0, 0, 0, 0, 0], [1, 0, 0, 0, 0, 0, 0]]"
  by code_simp

section \<open>Legal moves and the invariants of legal play\<close>

lemma get_valid_moves_loop_ok:
  assumes "0 < length a" and "\<And>c. c \<in> set cs \<Longrightarrow> c < length (a ! 0)"
  shows "get_valid_moves_loop a cs acc = Inr (acc @ filter (\<lambda>c. a ! 0 ! c = 0) cs)"
  using assms(2)
proof (induction cs arbitrary: acc)
  case Nil
  show ?case by simp
next
  case (Cons c cs)
  have "c < length (a ! 0)" using Cons.prems by simp
  then have "getitem a 0 (int c) = Inr (a ! 0 ! c)"
    using assms(1) by (simp add: getitem_def)
  then show ?case using Cons by simp
qed

lemma get_valid_moves_ok:
  assumes "well_formed h self" and "0 < n_rows self"
  shows "get_valid_moves h self =
    (Inr (filter (\<lambda>c. cell h self 0 c = 0) [0..<n_columns self]), h, self)"
proof -
  have A: "0 < length (h ! grid self)" using assms by (simp add: wf_len)
  have B: "\<And>c. c \<in> set [0..<n_columns self] \<Longrightarrow> c < length (h ! grid self ! 0)"
    using assms by (simp add: wf_row_length)
  have "get_valid_moves_loop (h ! grid self) [0..<n_columns self] [] =
      Inr ([] @ filter (\<lambda>c. h ! grid self ! 0 ! c = 0) [0..<n_columns self])"
    using A B by (rule get_valid_moves_loop_ok)
  then show ?thesis
    by (simp add: get_valid_moves_def cell_def)
qed

lemma get_valid_moves_no_rows:
  assumes "well_formed h self" and "n_rows self = 0"
    and "get_valid_moves h self = (Inr cols, h1, self1)"
  shows "cols = []"
proof (cases "n_columns self")
  case 0
  then show ?thesis using assms(3) by (simp add: get_valid_moves_def)
next
  case (Suc n)
  have "length (h ! grid self) = 0" using assms by (simp add: wf_len)
  then have "getitem (h ! grid self) 0 (int 0) = Inl IndexError"
    by (simp add: getitem_def np_index_def)
  moreover have "[0..<n_columns self] = 0 # [1..<n_columns self]"
    using Suc by (simp add: upt_conv_Cons)
  ultimately show ?thesis using assms(3) by (simp add: get_valid_moves_def)
qed

lemma valid_move_legal:
  assumes wf: "well_formed h self"
    and gvm: "get_valid_moves h self = (Inr cols, h1, self1)"
    and c: "c \<in> set cols"
  shows "0 < n_rows self \<and> c < n_columns self \<and> cell h self 0 c = 0"
proof -
  have nr: "0 < n_rows self"
    using get_valid_moves_no_rows[OF wf _ gvm] c by (cases "n_rows self") auto
  from get_valid_moves_ok[OF wf nr] gvm
  have "cols = filter (\<lambda>c. cell h self 0 c = 0) [0..<n_columns self]" by simp
  then show ?thesis using nr c by simp
qed

lemma length_put [simp]: "length (put a r c v) = length a"
  by (simp add: put_def)

lemma put_row:
  "i < length a \<Longrightarrow> put a r c v ! i = (if i = r then (a ! i)[c := v] else a ! i)"
  by (simp add: put_def nth_list_update)

lemma put_nth:
  "i < length a \<Longrightarrow> j < length (a ! i) \<Longrightarrow>
   put a r c v ! i ! j = (if i = r \<and> j = c then v else a ! i ! j)"
  by (auto simp: put_row nth_list_update)

lemma well_formed_put:
  assumes wf: "well_formed h self"
  shows "well_formed (h[grid self := put (h ! grid self) r c v]) self"
proof -
  have a: "grid self < length h" using wf by (rule wf_addr)
  have "list_all (\<lambda>row. length row = n_columns self) (h ! grid self)"
    using wf by (simp add: well_formed_def)
  then have "list_all (\<lambda>row. length row = n_columns self) (put (h ! grid self) r c v)"
    by (simp add: list_all_length put_row)
  then show ?thesis
    using wf a by (simp add: well_formed_def)
qed

lemma cell_put:
  assumes "grid self < length h" and "i < length (h ! grid self)"
    and "j < length (h ! grid self ! i)"
  shows "cell (h[grid self := put (h ! grid self) r c v]) self i j =
         (if i = r \<and> j = c then v else cell h self i j)"
  using assms by (simp add: cell_def put_nth)

lemma cells_ok_put:
  assumes "cells_ok h self" and "grid self < length h" and "v = 1 \<or> v = 2"
  shows "cells_ok (h[grid self := put (h ! grid self) r c v]) self"
proof -
  have "list_all (list_all (\<lambda>v. v = 0 \<or> v = 1 \<or> v = 2)) (h ! grid self)"
    using assms(1) by (simp add: cells_ok_def)
  then have "list_all (list_all (\<lambda>v. v = 0 \<or> v = 1 \<or> v = 2)) (put (h ! grid self) r c v)"
    using assms(3) unfolding list_all_length length_put
    by (metis length_list_update put_nth put_row)
  then show ?thesis using assms(2) by (simp add: cells_ok_def)
qed

lemma gravity_put:
  assumes wf: "well_formed h self" and grav: "gravity h self"
    and r: "r < n_rows self" and c: "c < n_columns self"
    and above: "\<forall>j\<le>r. h ! grid self ! j ! c = 0"
    and below: "r + 1 < n_rows self \<longrightarrow> h ! grid self ! (r + 1) ! c \<noteq> 0"
    and v: "v \<noteq> 0"
  shows "gravity (h[grid self := put (h ! grid self) r c v]) self"
proof -
  let ?h' = "h[grid self := put (h ! grid self) r c v]"
  have wf': "well_formed ?h' self" using wf by (rule well_formed_put)
  have a: "grid self < length h" using wf by (rule wf_addr)
  have cp: "cell ?h' self i j = (if i = r \<and> j = c then v else cell h self i j)"
    if "i < n_rows self" "j < n_columns self" for i j
    using that a by (intro cell_put) (simp_all add: wf_len[OF wf] wf_row_length[OF wf])
  have "\<exists>k\<le>n_rows self. \<forall>i<n_rows self. (cell ?h' self i j = 0) = (i < k)"
    if j: "j < n_columns self" for j
  proof -
    from grav j obtain k where k: "k \<le> n_rows self"
      "\<forall>i<n_rows self. (cell h self i j = 0) = (i < k)"
      unfolding gravity_iff[OF wf] by blast
    show ?thesis
    proof (cases "j = c")
      case False
      then have "\<forall>i<n_rows self. (cell ?h' self i j = 0) = (i < k)"
        using k(2) j by (simp add: cp)
      then show ?thesis using k(1) by blast
    next
      case True
      have "cell h self r c = 0" using above by (simp add: cell_def)
      then have "r < k" using k(2) r True by simp
      moreover have "\<not> r + 1 < k" using k below True by (auto simp: cell_def)
      ultimately have keq: "k = r + 1" by simp
      have "(cell ?h' self i j = 0) = (i < r)" if "i < n_rows self" for i
        using that k(2) keq True v j by (auto simp: cp)
      then show ?thesis using r by (intro exI[of _ r]) simp
    qed
  qed
  then show ?thesis unfolding gravity_iff[OF wf'] by blast
qed

lemma zeros_nth: "r < nr \<Longrightarrow> c < nc \<Longrightarrow> zeros nr nc ! r ! c = 0"
  by (simp add: zeros_def)

lemma fresh_board_invariants:
  assumes "grid self = length h0" and "win_kernels self = make_kernels (win_streak self)"
  shows "well_formed (h0 @ [zeros (n_rows self) (n_columns self)]) self \<and>
         gravity (h0 @ [zeros (n_rows self) (n_columns self)]) self \<and>
         cells_ok (h0 @ [zeros (n_rows self) (n_columns self)]) self"
proof -
  let ?h = "h0 @ [zeros (n_rows self) (n_columns self)]"
  have g: "?h ! grid self = zeros (n_rows self) (n_columns self)"
    using assms(1) by simp
  have wf: "well_formed ?h self"
    unfolding well_formed_def g using assms by (simp add: zeros_def list_all_length)
  have "\<forall>c<n_columns self. \<exists>k\<le>n_rows self. \<forall>r<n_rows self. (cell ?h self r c = 0) = (r < k)"
    unfolding cell_def g by (intro allI impI exI[of _ "n_rows self"]) (simp add: zeros_nth)
  then have "gravity ?h self" unfolding gravity_iff[OF wf] .
  moreover have "cells_ok ?h self"
    unfolding cells_ok_def g by (simp add: zeros_def list_all_length)
  ultimately show ?thesis using wf by simp
qed

lemma reachable_invariants:
  "reachable h self \<Longrightarrow> well_formed h self \<and> gravity h self \<and> cells_ok h self"
proof (induction rule: reachable.induct)
  case (fresh h0 nr nc ws h self)
  then have "h = h0 @ [zeros (n_rows self) (n_columns self)]" "grid self = length h0"
    "win_kernels self = make_kernels (win_streak self)"
    by (auto simp: init_def)
  then show ?case using fresh_board_invariants[of self h0] by simp
next
  case (after_reset h self h' self')
  then have wf: "well_formed h self" by simp
  from after_reset.hyps(2) have e: "self' = self\<lparr>grid := length h\<rparr>"
    and h': "h' = h @ [zeros (n_rows self') (n_columns self')]"
    by (auto simp: reset_def)
  have "grid self' = length h" using e by simp
  moreover have "win_kernels self' = make_kernels (win_streak self')"
    using wf e by (simp add: well_formed_def)
  ultimately show ?case unfolding h' by (rule fresh_board_invariants)
next
  case (after_move h self valid_columns h1 self1 column player_id imaginary b h' self')
  then have wf: "well_formed h self" and grav: "gravity h self" and ok: "cells_ok h self"
    by simp_all
  from valid_move_legal[OF wf after_move.hyps(2,3)]
  have nr: "0 < n_rows self" and c: "column < n_columns self"
    and top: "cell h self 0 column = 0" by simp_all
  have col: "np_index (n_columns self) (int column) = Some column" using c by simp
  from make_move_ok[OF wf col nr, of player_id imaginary] top
  obtain r where r: "r < n_rows self" "\<forall>j\<le>r. h ! grid self ! j ! column = 0"
    "r + 1 < n_rows self \<longrightarrow> h ! grid self ! (r + 1) ! column \<noteq> 0"
    "make_move h self player_id (int column) imaginary =
       (Inr (grid self), h[grid self := put (h ! grid self) r column player_id], self)"
    unfolding cell_def by blast
  from r(4) after_move.hyps(5)
  have h': "h' = h[grid self := put (h ! grid self) r column player_id]" and e: "self' = self"
    by simp_all
  have p0: "player_id \<noteq> 0" using after_move.hyps(4) by auto
  show ?case unfolding h' e
    using well_formed_put[OF wf] gravity_put[OF wf grav r(1) c r(2,3) p0]
      cells_ok_put[OF ok wf_addr[OF wf] after_move.hyps(4)]
    by simp
qed


lemma default_engine_reachable: "reachable (fst default_engine) (snd default_engine)"
  by (rule fresh[of "[]" 6 7 4]) (simp add: default_engine_def)

lemma after_first_move_reachable: "reachable (fst after_first_move) (snd after_first_move)"
proof -
  have gv: "get_valid_moves (fst default_engine) (snd default_engine) =
      (Inr [0, 1, 2, 3, 4, 5, 6], fst default_engine, snd default_engine)"
    by code_simp
  have mm: "make_move (fst default_engine) (snd default_engine) 1 (int 3) False =
      (Inr 0, fst after_first_move, snd after_first_move)"
    by code_simp
  show ?thesis
    by (rule after_move[OF default_engine_reachable gv _ _ mm]) simp_all
qed

text \<open>
  Claim C9. Gravity invariant: in every state reached from a freshly constructed or reset
  engine by moves of player 1 or 2 into columns that \<^verbatim>\<open>get_valid_moves\<close> lists,
  each column is split at some row \<open>k\<close>: the cells above it (rows \<open>0 .. k-1\<close>) are
  empty and the cells from it down to the bottom row are occupied.
\<close>
theorem gravity_invariant:
  assumes "reachable h self" and "c < n_columns self"
  shows "\<exists>k\<le>n_rows self. \<forall>r<n_rows self. (cell h self r c = 0) = (r < k)"
proof -
  from assms(1) have "well_formed h self" and "gravity h self"
    by (simp_all add: reachable_invariants)
  then show ?thesis using assms(2) by (simp add: gravity_iff)
qed

theorem gravity_invariant_witness:
  "reachable (fst after_first_move) (snd after_first_move) \<and>
   cell (fst after_first_move) (snd after_first_move) 5 3 = 1 \<and>
   (\<exists>k\<le>n_rows (snd after_first_move). \<forall>r<n_rows (snd after_first_move).
      (cell (fst after_first_move) (snd after_first_move) r 3 = 0) = (r < k))"
proof -
  have c: "3 < n_columns (snd after_first_move)" by code_simp
  have v: "cell (fst after_first_move) (snd after_first_move) 5 3 = 1" by code_simp
  show ?thesis
    using after_first_move_reachable v gravity_invariant[OF after_first_move_reachable c]
    by simp
qed

text \<open>
  Claim C8. On any board with at least one row, \<^verbatim>\<open>get_valid_moves\<close> returns
  the columns \<open>0 .. n_columns-1\<close> whose topmost cell is empty, in ascending order,
  and leaves the store and the engine as they were; on a board reached by legal play the
  returned list is empty exactly when the board is completely full.
\<close>
theorem valid_moves_exact:
  assumes wf: "well_formed h self" and nr: "0 < n_rows self"
  shows "get_valid_moves h self =
           (Inr (filter (\<lambda>c. cell h self 0 c = 0) [0..<n_columns self]), h, self) \<and>
         (reachable h self \<longrightarrow>
           (filter (\<lambda>c. cell h self 0 c = 0) [0..<n_columns self] = []) = board_full h self)"
proof (intro conjI impI)
  show "get_valid_moves h self =
      (Inr (filter (\<lambda>c. cell h self 0 c = 0) [0..<n_columns self]), h, self)"
    using wf nr by (rule get_valid_moves_ok)
next
  assume "reachable h self"
  then have grav: "gravity h self" by (simp add: reachable_invariants)
  have full: "board_full h self \<longleftrightarrow>
      (\<forall>r<n_rows self. \<forall>c<n_columns self. cell h self r c \<noteq> 0)"
    using wf_row_length[OF wf]
    by (simp add: board_full_def list_all_length wf_len[OF wf] cell_def)
  have none: "filter (\<lambda>c. cell h self 0 c = 0) [0..<n_columns self] = [] \<longleftrightarrow>
      (\<forall>c<n_columns self. cell h self 0 c \<noteq> 0)"
    by (auto simp: filter_empty_conv)
  have "(\<forall>c<n_columns self. cell h self 0 c \<noteq> 0) \<longleftrightarrow>
      (\<forall>r<n_rows self. \<forall>c<n_columns self. cell h self r c \<noteq> 0)"
  proof
    assume top: "\<forall>c<n_columns self. cell h self 0 c \<noteq> 0"
    show "\<forall>r<n_rows self. \<forall>c<n_columns self. cell h self r c \<noteq> 0"
    proof (intro allI impI)
      fix r c assume r: "r < n_rows self" and c: "c < n_columns self"
      from grav c obtain k where k: "\<forall>i<n_rows self. (cell h self i c = 0) = (i < k)"
        unfolding gravity_iff[OF wf] by blast
      have "\<not> 0 < k" using k nr top c by blast
      then show "cell h self r c \<noteq> 0" using k r by simp
    qed
  next
    assume "\<forall>r<n_rows self. \<forall>c<n_columns self. cell h self r c \<noteq> 0"
    then show "\<forall>c<n_columns self. cell h self 0 c \<noteq> 0" using nr by blast
  qed
  then show "(filter (\<lambda>c. cell h self 0 c = 0) [0..<n_columns self] = []) = board_full h self"
    unfolding full none .
qed

theorem valid_moves_exact_witness:
  "well_formed (fst column0_full) (snd column0_full) \<and>
   get_valid_moves (fst column0_full) (snd column0_full) =
     (Inr [1, 2, 3, 4, 5, 6], fst column0_full, snd column0_full) \<and>
   reachable (fst after_first_move) (snd after_first_move) \<and>
   get_valid_moves (fst after_first_move) (snd after_first_move) =
     (Inr [0, 1, 2, 3, 4, 5, 6], fst after_first_move, snd after_first_move) \<and>
   \<not> board_full (fst after_first_move) (snd after_first_move)"
proof -
  have wf: "well_formed (fst column0_full) (snd column0_full)" by code_simp
  have nr: "0 < n_rows (snd column0_full)" by code_simp
  have f: "filter (\<lambda>c. cell (fst column0_full) (snd column0_full) 0 c = 0)
      [0..<n_columns (snd column0_full)] = [1, 2, 3, 4, 5, 6]" by code_simp
  have wf1: "well_formed (fst after_first_move) (snd after_first_move)" by code_simp
  have nr1: "0 < n_rows (snd after_first_move)" by code_simp
  have f1: "filter (\<lambda>c. cell (fst after_first_move) (snd after_first_move) 0 c = 0)
      [0..<n_columns (snd after_first_move)] = [0, 1, 2, 3, 4, 5, 6]" by code_simp
  show ?thesis
    using valid_moves_exact[OF wf nr] valid_moves_exact[OF wf1 nr1] f f1 wf
      after_first_move_reachable
    by simp
qed

section \<open>The convolution and the win condition\<close>

lemma sum_ind_le:
  "sum_list (map (\<lambda>t. if Q t then (1::int) else 0) [0..<n]) \<le> int n"
  by (induction n) auto

lemma sum_ind_full:
  "(int n \<le> sum_list (map (\<lambda>t. if Q t then (1::int) else 0) [0..<n])) \<longleftrightarrow> (\<forall>t<n. Q t)"
proof (induction n)
  case 0
  show ?case by simp
next
  case (Suc n)
  show ?case
  proof (cases "Q n")
    case True
    then show ?thesis using Suc by (simp add: less_Suc_eq)
  next
    case False
    then show ?thesis using sum_ind_le[of Q n] by auto
  qed
qed

lemma sum_delta:
  "sum_list (map (\<lambda>b. if b = a then f b else (0::int)) [0..<n]) = (if a < n then f a else 0)"
  by (induction n) auto

lemma shape_put: "shape a r c \<Longrightarrow> shape (put a i j v) r c"
  by (simp add: shape_def put_row)

lemma shape_zeros: "shape (zeros r c) r c"
  by (simp add: shape_def zeros_def)

lemma ncols_shape: "shape a r c \<Longrightarrow> 0 < r \<Longrightarrow> ncols a = c"
  by (cases a) (auto simp: shape_def ncols_def)

lemma ones_nth: "a < r \<Longrightarrow> b < c \<Longrightarrow> ones r c ! a ! b = 1"
  by (simp add: ones_def)

lemma shape_ones: "shape (ones r c) r c"
  by (simp add: shape_def ones_def)

lemma diag_kernels:
  assumes "n \<le> ws"
  shows "shape (fst (foldl (kernel_step ws) (zeros ws ws, zeros ws ws) [0..<n])) ws ws \<and>
         shape (snd (foldl (kernel_step ws) (zeros ws ws, zeros ws ws) [0..<n])) ws ws \<and>
         (\<forall>a<ws. \<forall>b<ws.
            fst (foldl (kernel_step ws) (zeros ws ws, zeros ws ws) [0..<n]) ! a ! b =
              (if a = b \<and> a < n then 1 else 0) \<and>
            snd (foldl (kernel_step ws) (zeros ws ws, zeros ws ws) [0..<n]) ! a ! b =
              (if b = ws - a - 1 \<and> a < n then 1 else 0))"
  using assms
proof (induction n)
  case 0
  show ?case by (simp add: shape_zeros zeros_nth)
next
  case (Suc n)
  let ?d = "foldl (kernel_step ws) (zeros ws ws, zeros ws ws) [0..<n]"
  from Suc have IH: "shape (fst ?d) ws ws" "shape (snd ?d) ws ws"
    "\<forall>a<ws. \<forall>b<ws. fst ?d ! a ! b = (if a = b \<and> a < n then 1 else 0) \<and>
        snd ?d ! a ! b = (if b = ws - a - 1 \<and> a < n then 1 else 0)"
    by simp_all
  have step: "foldl (kernel_step ws) (zeros ws ws, zeros ws ws) [0..<Suc n] =
      (put (fst ?d) n n 1, put (snd ?d) n (ws - n - 1) 1)"
    by (simp add: kernel_step_def)
  have "put (fst ?d) n n 1 ! a ! b = (if a = b \<and> a < Suc n then 1 else 0) \<and>
        put (snd ?d) n (ws - n - 1) 1 ! a ! b = (if b = ws - a - 1 \<and> a < Suc n then 1 else 0)"
    if "a < ws" "b < ws" for a b
  proof -
    have la: "a < length (fst ?d)" "a < length (snd ?d)"
      using IH(1,2) that by (simp_all add: shape_def)
    have lb: "b < length (fst ?d ! a)" "b < length (snd ?d ! a)"
      using IH(1,2) that by (simp_all add: shape_def)
    show ?thesis
      using that IH(3) by (auto simp: put_nth[OF la(1) lb(1)] put_nth[OF la(2) lb(2)])
  qed
  then show ?case
    unfolding step using IH(1,2) by (simp add: shape_put)
qed

lemma make_kernels_eq:
  "make_kernels ws =
     [ones 1 ws, ones ws 1,
      fst (foldl (kernel_step ws) (zeros ws ws, zeros ws ws) [0..<ws]),
      snd (foldl (kernel_step ws) (zeros ws ws, zeros ws ws) [0..<ws])]"
  by (simp add: make_kernels_def Let_def)


lemma length_player_pieces [simp]: "length (player_pieces a p) = length a"
  by (simp add: player_pieces_def)

lemma ncols_player_pieces [simp]: "ncols (player_pieces a p) = ncols a"
  by (cases a) (simp_all add: player_pieces_def ncols_def)

lemma player_pieces_nth:
  "r < length a \<Longrightarrow> c < length (a ! r) \<Longrightarrow>
   player_pieces a p ! r ! c = (if a ! r ! c = p then 1 else 0)"
  by (simp add: player_pieces_def)

lemma conv_term:
  assumes "shape a R C" and "0 < R"
  shows "(if x \<le> i \<and> i - x < length (player_pieces a p) \<and> y \<le> j \<and>
             j - y < ncols (player_pieces a p)
          then k * player_pieces a p ! (i - x) ! (j - y) else 0) =
         k * (if hit a p i j x y then 1 else 0)"
proof (cases "x \<le> i \<and> i - x < length a \<and> y \<le> j \<and> j - y < ncols a")
  case True
  then have "j - y < length (a ! (i - x))"
    using assms ncols_shape[OF assms] by (simp add: shape_def)
  then show ?thesis using True by (simp add: hit_def player_pieces_nth)
next
  case False
  then show ?thesis by (auto simp: hit_def)
qed

lemma conv_at_eq:
  assumes "shape a R C" and "0 < R"
  shows "conv_at (player_pieces a p) K i j =
     sum_list (map (\<lambda>x. sum_list (map (\<lambda>y.
        K ! x ! y * (if hit a p i j x y then 1 else 0)) [0..<ncols K])) [0..<length K])"
  unfolding conv_at_def conv_term[OF assms] ..

lemma conv_horizontal:
  assumes "shape a R C" and "0 < R" and "0 < ws"
  shows "conv_at (player_pieces a p) (ones 1 ws) i j =
     sum_list (map (\<lambda>t. if hit a p i j 0 t then 1 else 0) [0..<ws])"
proof -
  have n: "ncols (ones 1 ws) = ws" "length (ones 1 ws) = 1"
    by (simp_all add: ones_def ncols_def)
  have A: "conv_at (player_pieces a p) (ones 1 ws) i j =
      sum_list (map (\<lambda>y. ones 1 ws ! 0 ! y * (if hit a p i j 0 y then 1 else 0)) [0..<ws])"
    unfolding conv_at_eq[OF assms(1,2)] n by simp
  have B: "map (\<lambda>y. ones 1 ws ! 0 ! y * (if hit a p i j 0 y then 1 else 0)) [0..<ws] =
      map (\<lambda>t. if hit a p i j 0 t then (1::int) else 0) [0..<ws]"
    by (intro map_cong) (simp_all add: ones_nth)
  show ?thesis unfolding A B ..
qed

lemma conv_vertical:
  assumes "shape a R C" and "0 < R" and "0 < ws"
  shows "conv_at (player_pieces a p) (ones ws 1) i j =
     sum_list (map (\<lambda>t. if hit a p i j t 0 then 1 else 0) [0..<ws])"
proof -
  have n: "ncols (ones ws 1) = 1" "length (ones ws 1) = ws"
    using assms(3) by (cases ws; simp add: ones_def ncols_def)+
  have A: "conv_at (player_pieces a p) (ones ws 1) i j =
      sum_list (map (\<lambda>x. ones ws 1 ! x ! 0 * (if hit a p i j x 0 then 1 else 0)) [0..<ws])"
    unfolding conv_at_eq[OF assms(1,2)] n by simp
  have B: "map (\<lambda>x. ones ws 1 ! x ! 0 * (if hit a p i j x 0 then 1 else 0)) [0..<ws] =
      map (\<lambda>t. if hit a p i j t 0 then (1::int) else 0) [0..<ws]"
    by (intro map_cong) (simp_all add: ones_nth)
  show ?thesis unfolding A B ..
qed

lemma conv_diagonal1:
  assumes "shape a R C" and "0 < R" and "0 < ws"
  shows "conv_at (player_pieces a p)
           (fst (foldl (kernel_step ws) (zeros ws ws, zeros ws ws) [0..<ws])) i j =
     sum_list (map (\<lambda>t. if hit a p i j t t then 1 else 0) [0..<ws])"
proof -
  let ?K = "fst (foldl (kernel_step ws) (zeros ws ws, zeros ws ws) [0..<ws])"
  have sh: "shape ?K ws ws" using diag_kernels[of ws ws] by simp
  have n: "ncols ?K = ws" "length ?K = ws"
    using sh assms(3) by (simp_all add: ncols_shape) (simp add: shape_def)
  have e: "?K ! x ! y = (if y = x then 1 else 0)" if "x < ws" "y < ws" for x y
    using diag_kernels[of ws ws] that by auto
  have inner: "sum_list (map (\<lambda>y. ?K ! x ! y * (if hit a p i j x y then 1 else 0)) [0..<ws]) =
      (if hit a p i j x x then 1 else 0)" if "x < ws" for x
  proof -
    have "map (\<lambda>y. ?K ! x ! y * (if hit a p i j x y then 1 else 0)) [0..<ws] =
        map (\<lambda>y. if y = x then (if hit a p i j x y then 1 else 0) else (0::int)) [0..<ws]"
      using that by (intro map_cong) (simp_all add: e)
    then show ?thesis using that by (simp only: sum_delta) simp
  qed
  show ?thesis
    unfolding conv_at_eq[OF assms(1,2)] n
    by (intro arg_cong[where f = sum_list] map_cong) (simp_all add: inner)
qed

lemma conv_diagonal2:
  assumes "shape a R C" and "0 < R" and "0 < ws"
  shows "conv_at (player_pieces a p)
           (snd (foldl (kernel_step ws) (zeros ws ws, zeros ws ws) [0..<ws])) i j =
     sum_list (map (\<lambda>t. if hit a p i j t (ws - t - 1) then 1 else 0) [0..<ws])"
proof -
  let ?K = "snd (foldl (kernel_step ws) (zeros ws ws, zeros ws ws) [0..<ws])"
  have sh: "shape ?K ws ws" using diag_kernels[of ws ws] by simp
  have n: "ncols ?K = ws" "length ?K = ws"
    using sh assms(3) by (simp_all add: ncols_shape) (simp add: shape_def)
  have e: "?K ! x ! y = (if y = ws - x - 1 then 1 else 0)" if "x < ws" "y < ws" for x y
    using diag_kernels[of ws ws] that by auto
  have inner: "sum_list (map (\<lambda>y. ?K ! x ! y * (if hit a p i j x y then 1 else 0)) [0..<ws]) =
      (if hit a p i j x (ws - x - 1) then 1 else 0)" if "x < ws" for x
  proof -
    have "map (\<lambda>y. ?K ! x ! y * (if hit a p i j x y then 1 else 0)) [0..<ws] =
        map (\<lambda>y. if y = ws - x - 1 then (if hit a p i j x y then 1 else 0) else (0::int)) [0..<ws]"
      using that by (intro map_cong) (simp_all add: e)
    then show ?thesis using that by (simp only: sum_delta) simp
  qed
  show ?thesis
    unfolding conv_at_eq[OF assms(1,2)] n
    by (intro arg_cong[where f = sum_list] map_cong) (simp_all add: inner)
qed

lemma list_ex_map_upt: "list_ex P (map f [0..<n]) \<longleftrightarrow> (\<exists>i<n. P (f i))"
  by (auto simp: list_ex_iff)

lemma np_any_ge_convolve2d:
  "np_any_ge (convolve2d in1 in2) t \<longleftrightarrow>
     (\<exists>i<length in1 + length in2 - 1. \<exists>j<ncols in1 + ncols in2 - 1. t \<le> conv_at in1 in2 i j)"
  unfolding np_any_ge_def convolve2d_def list_ex_map_upt ..

lemma rev_index: "(\<forall>t<n. F (n - 1 - t)) \<longleftrightarrow> (\<forall>t<n. F (t::nat))"
proof
  assume L: "\<forall>t<n. F (n - 1 - t)"
  show "\<forall>t<n. F t"
  proof (intro allI impI)
    fix t assume "t < n"
    then have "n - 1 - t < n" "n - 1 - (n - 1 - t) = t" by simp_all
    then show "F t" using L by metis
  qed
next
  assume R: "\<forall>t<n. F t"
  show "\<forall>t<n. F (n - 1 - t)"
  proof (intro allI impI)
    fix t assume "t < n"
    then have "n - 1 - t < n" by simp
    then show "F (n - 1 - t)" using R by simp
  qed
qed

lemma placement_iff:
  fixes A :: "nat \<Rightarrow> nat \<Rightarrow> bool"
  assumes kr: "0 < kr" and kc: "0 < kc"
    and oa: "\<forall>t<ws. oa t < kr" and ob: "\<forall>t<ws. ob t < kc"
    and a0: "\<exists>t<ws. oa t = 0" and a1: "\<exists>t<ws. oa t = kr - 1"
    and b0: "\<exists>t<ws. ob t = 0" and b1: "\<exists>t<ws. ob t = kc - 1"
  shows "(\<exists>i<R + kr - 1. \<exists>j<C + kc - 1.
            \<forall>t<ws. oa t \<le> i \<and> i - oa t < R \<and> ob t \<le> j \<and> j - ob t < C \<and>
                   A (i - oa t) (j - ob t)) \<longleftrightarrow>
         (\<exists>r c. r + kr \<le> R \<and> c + kc \<le> C \<and>
            (\<forall>t<ws. A (r + (kr - 1 - oa t)) (c + (kc - 1 - ob t))))"
proof
  assume "\<exists>i<R + kr - 1. \<exists>j<C + kc - 1.
            \<forall>t<ws. oa t \<le> i \<and> i - oa t < R \<and> ob t \<le> j \<and> j - ob t < C \<and>
                   A (i - oa t) (j - ob t)"
  then obtain i j where ij:
    "\<forall>t<ws. oa t \<le> i \<and> i - oa t < R \<and> ob t \<le> j \<and> j - ob t < C \<and> A (i - oa t) (j - ob t)"
    by blast
  from a0 ij have iR: "i < R" by force
  from a1 ij have ik: "kr - 1 \<le> i" by force
  from b0 ij have jC: "j < C" by force
  from b1 ij have jk: "kc - 1 \<le> j" by force
  have "A (i - (kr - 1) + (kr - 1 - oa t)) (j - (kc - 1) + (kc - 1 - ob t))" if "t < ws" for t
  proof -
    have "oa t \<le> kr - 1" "ob t \<le> kc - 1" using oa ob that by fastforce+
    then have "i - (kr - 1) + (kr - 1 - oa t) = i - oa t" "j - (kc - 1) + (kc - 1 - ob t) = j - ob t"
      using ik jk by simp_all
    then show ?thesis using ij that by simp
  qed
  moreover have "i - (kr - 1) + kr \<le> R" "j - (kc - 1) + kc \<le> C"
    using iR ik jC jk kr kc by simp_all
  ultimately show "\<exists>r c. r + kr \<le> R \<and> c + kc \<le> C \<and>
            (\<forall>t<ws. A (r + (kr - 1 - oa t)) (c + (kc - 1 - ob t)))"
    by blast
next
  assume "\<exists>r c. r + kr \<le> R \<and> c + kc \<le> C \<and>
            (\<forall>t<ws. A (r + (kr - 1 - oa t)) (c + (kc - 1 - ob t)))"
  then obtain r c where rc: "r + kr \<le> R" "c + kc \<le> C"
    "\<forall>t<ws. A (r + (kr - 1 - oa t)) (c + (kc - 1 - ob t))" by blast
  let ?i = "r + (kr - 1)" and ?j = "c + (kc - 1)"
  have bi: "?i < R + kr - 1" "?j < C + kc - 1" using rc(1,2) kr kc by simp_all
  have "oa t \<le> ?i \<and> ?i - oa t < R \<and> ob t \<le> ?j \<and> ?j - ob t < C \<and>
          A (?i - oa t) (?j - ob t)" if "t < ws" for t
  proof -
    have le: "oa t \<le> kr - 1" "ob t \<le> kc - 1" using oa ob that by fastforce+
    then have eq: "?i - oa t = r + (kr - 1 - oa t)" "?j - ob t = c + (kc - 1 - ob t)"
      by simp_all
    have "A (?i - oa t) (?j - ob t)" unfolding eq using rc(3) that by simp
    moreover have "?i - oa t < R" "?j - ob t < C" using rc(1,2) kr kc by simp_all
    ultimately show ?thesis using le by simp
  qed
  then show "\<exists>i<R + kr - 1. \<exists>j<C + kc - 1.
            \<forall>t<ws. oa t \<le> i \<and> i - oa t < R \<and> ob t \<le> j \<and> j - ob t < C \<and>
                   A (i - oa t) (j - ob t)"
    using bi by blast
qed


lemma covered_map:
  "covered a p (map f [0..<n]) \<longleftrightarrow> (\<forall>t<n. a ! fst (f t) ! snd (f t) = p)"
  by (simp add: covered_def list_all_length)

lemma any_ge_hits:
  assumes sh: "shape a R C" and R: "0 < R"
    and conv: "\<And>i j. conv_at (player_pieces a p) K i j =
       sum_list (map (\<lambda>t. if hit a p i j (oa t) (ob t) then 1 else 0) [0..<ws])"
  shows "np_any_ge (convolve2d (player_pieces a p) K) (int ws) \<longleftrightarrow>
     (\<exists>i<R + length K - 1. \<exists>j<C + ncols K - 1.
        \<forall>t<ws. oa t \<le> i \<and> i - oa t < R \<and> ob t \<le> j \<and> j - ob t < C \<and>
               a ! (i - oa t) ! (j - ob t) = p)"
proof -
  have l: "length a = R" using sh by (simp add: shape_def)
  have n: "ncols a = C" using sh R by (rule ncols_shape)
  show ?thesis
    unfolding np_any_ge_convolve2d conv sum_ind_full hit_def
    by (simp add: l n)
qed

lemma win_horizontal:
  assumes sh: "shape a R C" and R: "0 < R" and ws: "0 < ws"
  shows "np_any_ge (convolve2d (player_pieces a p) (ones 1 ws)) (int ws) \<longleftrightarrow>
     (\<exists>r c. r < R \<and> c + ws \<le> C \<and> covered a p (horizontal ws r c))"
proof -
  have n: "ncols (ones 1 ws) = ws" "length (ones 1 ws) = 1"
    by (simp_all add: ones_def ncols_def)
  have "np_any_ge (convolve2d (player_pieces a p) (ones 1 ws)) (int ws) \<longleftrightarrow>
     (\<exists>i<R + 1 - 1. \<exists>j<C + ws - 1.
        \<forall>t<ws. 0 \<le> i \<and> i - 0 < R \<and> t \<le> j \<and> j - t < C \<and> a ! (i - 0) ! (j - t) = p)"
    using any_ge_hits[OF sh R conv_horizontal[OF sh R ws]] unfolding n .
  also have "\<dots> \<longleftrightarrow> (\<exists>r c. r + 1 \<le> R \<and> c + ws \<le> C \<and>
      (\<forall>t<ws. a ! (r + (1 - 1 - 0)) ! (c + (ws - 1 - t)) = p))"
    using ws
    by (intro placement_iff[where oa = "\<lambda>t. 0" and ob = "\<lambda>t. t" and kr = 1 and kc = ws
          and A = "\<lambda>x y. a ! x ! y = p"]) auto
  also have "\<dots> \<longleftrightarrow> (\<exists>r c. r < R \<and> c + ws \<le> C \<and> (\<forall>t<ws. a ! r ! (c + (ws - 1 - t)) = p))"
    by (simp add: Suc_le_eq)
  also have "\<dots> \<longleftrightarrow> (\<exists>r c. r < R \<and> c + ws \<le> C \<and> (\<forall>t<ws. a ! r ! (c + t) = p))"
    unfolding rev_index[where F = "\<lambda>t. a ! _ ! (_ + t) = p"] ..
  finally show ?thesis by (simp add: horizontal_def covered_map)
qed


lemma win_vertical:
  assumes sh: "shape a R C" and R: "0 < R" and ws: "0 < ws"
  shows "np_any_ge (convolve2d (player_pieces a p) (ones ws 1)) (int ws) \<longleftrightarrow>
     (\<exists>r c. r + ws \<le> R \<and> c < C \<and> covered a p (vertical ws r c))"
proof -
  have n: "ncols (ones ws 1) = 1" "length (ones ws 1) = ws"
    using ws by (cases ws; simp add: ones_def ncols_def)+
  have "np_any_ge (convolve2d (player_pieces a p) (ones ws 1)) (int ws) \<longleftrightarrow>
     (\<exists>i<R + ws - 1. \<exists>j<C + 1 - 1.
        \<forall>t<ws. t \<le> i \<and> i - t < R \<and> 0 \<le> j \<and> j - 0 < C \<and> a ! (i - t) ! (j - 0) = p)"
    using any_ge_hits[OF sh R conv_vertical[OF sh R ws]] unfolding n .
  also have "\<dots> \<longleftrightarrow> (\<exists>r c. r + ws \<le> R \<and> c + 1 \<le> C \<and>
      (\<forall>t<ws. a ! (r + (ws - 1 - t)) ! (c + (1 - 1 - 0)) = p))"
    using ws
    by (intro placement_iff[where oa = "\<lambda>t. t" and ob = "\<lambda>t. 0" and kr = ws and kc = 1
          and A = "\<lambda>x y. a ! x ! y = p"]) auto
  also have "\<dots> \<longleftrightarrow> (\<exists>r c. r + ws \<le> R \<and> c < C \<and> (\<forall>t<ws. a ! (r + (ws - 1 - t)) ! c = p))"
    by (simp add: Suc_le_eq)
  also have "\<dots> \<longleftrightarrow> (\<exists>r c. r + ws \<le> R \<and> c < C \<and> (\<forall>t<ws. a ! (r + t) ! c = p))"
    unfolding rev_index[where F = "\<lambda>t. a ! (_ + t) ! _ = p"] ..
  finally show ?thesis by (simp add: vertical_def covered_map)
qed

lemma win_diagonal1:
  assumes sh: "shape a R C" and R: "0 < R" and ws: "0 < ws"
  shows "np_any_ge (convolve2d (player_pieces a p)
            (fst (foldl (kernel_step ws) (zeros ws ws, zeros ws ws) [0..<ws]))) (int ws) \<longleftrightarrow>
     (\<exists>r c. r + ws \<le> R \<and> c + ws \<le> C \<and> covered a p (diagonal_down_right ws r c))"
proof -
  let ?K = "fst (foldl (kernel_step ws) (zeros ws ws, zeros ws ws) [0..<ws])"
  have shK: "shape ?K ws ws" using diag_kernels[of ws ws] by simp
  have n: "ncols ?K = ws" "length ?K = ws"
    using shK ws by (simp_all add: ncols_shape) (simp add: shape_def)
  have "np_any_ge (convolve2d (player_pieces a p) ?K) (int ws) \<longleftrightarrow>
     (\<exists>i<R + ws - 1. \<exists>j<C + ws - 1.
        \<forall>t<ws. t \<le> i \<and> i - t < R \<and> t \<le> j \<and> j - t < C \<and> a ! (i - t) ! (j - t) = p)"
    using any_ge_hits[OF sh R conv_diagonal1[OF sh R ws]] unfolding n .
  also have "\<dots> \<longleftrightarrow> (\<exists>r c. r + ws \<le> R \<and> c + ws \<le> C \<and>
      (\<forall>t<ws. a ! (r + (ws - 1 - t)) ! (c + (ws - 1 - t)) = p))"
    using ws
    by (intro placement_iff[where oa = "\<lambda>t. t" and ob = "\<lambda>t. t" and kr = ws and kc = ws
          and A = "\<lambda>x y. a ! x ! y = p"]) auto
  also have "\<dots> \<longleftrightarrow> (\<exists>r c. r + ws \<le> R \<and> c + ws \<le> C \<and> (\<forall>t<ws. a ! (r + t) ! (c + t) = p))"
    unfolding rev_index[where F = "\<lambda>t. a ! (_ + t) ! (_ + t) = p"] ..
  finally show ?thesis by (simp add: diagonal_down_right_def covered_map)
qed

lemma win_diagonal2:
  assumes sh: "shape a R C" and R: "0 < R" and ws: "0 < ws"
  shows "np_any_ge (convolve2d (player_pieces a p)
            (snd (foldl (kernel_step ws) (zeros ws ws, zeros ws ws) [0..<ws]))) (int ws) \<longleftrightarrow>
     (\<exists>r c. r + ws \<le> R \<and> c + ws \<le> C \<and> covered a p (diagonal_down_left ws r c))"
proof -
  let ?K = "snd (foldl (kernel_step ws) (zeros ws ws, zeros ws ws) [0..<ws])"
  have shK: "shape ?K ws ws" using diag_kernels[of ws ws] by simp
  have n: "ncols ?K = ws" "length ?K = ws"
    using shK ws by (simp_all add: ncols_shape) (simp add: shape_def)
  have e: "ws - t - 1 = ws - 1 - t" for t by simp
  have "np_any_ge (convolve2d (player_pieces a p) ?K) (int ws) \<longleftrightarrow>
     (\<exists>i<R + ws - 1. \<exists>j<C + ws - 1.
        \<forall>t<ws. t \<le> i \<and> i - t < R \<and> ws - 1 - t \<le> j \<and> j - (ws - 1 - t) < C \<and>
               a ! (i - t) ! (j - (ws - 1 - t)) = p)"
    using any_ge_hits[OF sh R conv_diagonal2[OF sh R ws]] unfolding n e .
  also have "\<dots> \<longleftrightarrow> (\<exists>r c. r + ws \<le> R \<and> c + ws \<le> C \<and>
      (\<forall>t<ws. a ! (r + (ws - 1 - t)) ! (c + (ws - 1 - (ws - 1 - t))) = p))"
  proof (rule placement_iff[where oa = "\<lambda>t. t" and ob = "\<lambda>t. ws - 1 - t" and kr = ws
          and kc = ws and A = "\<lambda>x y. a ! x ! y = p"])
    show "\<exists>t<ws. ws - 1 - t = 0" using ws by (intro exI[of _ "ws - 1"]) simp
    show "\<exists>t<ws. ws - 1 - t = ws - 1" using ws by (intro exI[of _ 0]) simp
    show "\<exists>t<ws. t = 0" using ws by simp
    show "\<exists>t<ws. t = ws - 1" using ws by simp
  qed (use ws in auto)
  also have "\<dots> \<longleftrightarrow> (\<exists>r c. r + ws \<le> R \<and> c + ws \<le> C \<and>
      (\<forall>t<ws. a ! (r + t) ! (c + (ws - 1 - t)) = p))"
    unfolding rev_index[where F = "\<lambda>t. a ! (_ + t) ! (_ + (ws - 1 - t)) = p"] ..
  finally show ?thesis by (simp add: diagonal_down_left_def covered_map)
qed

lemma list_ex_upt: "list_ex P [0..<n] \<longleftrightarrow> (\<exists>i<n. P i)"
  using list_ex_map_upt[of P "\<lambda>i. i" n] by simp

lemma streak_spec_iff:
  assumes ws: "0 < ws"
  shows "streak_spec R C ws a p \<longleftrightarrow>
     (\<exists>r c. r < R \<and> c + ws \<le> C \<and> covered a p (horizontal ws r c)) \<or>
     (\<exists>r c. r + ws \<le> R \<and> c < C \<and> covered a p (vertical ws r c)) \<or>
     (\<exists>r c. r + ws \<le> R \<and> c + ws \<le> C \<and> covered a p (diagonal_down_right ws r c)) \<or>
     (\<exists>r c. r + ws \<le> R \<and> c + ws \<le> C \<and> covered a p (diagonal_down_left ws r c))"
proof -
  have b: "r < R" if "r + ws \<le> R" for r using that ws by simp
  have c: "c < C" if "c + ws \<le> C" for c using that ws by simp
  show ?thesis
    unfolding streak_spec_def list_ex_upt using b c by blast
qed

lemma check_win_loop_four:
  "check_win_loop pieces ws [k1, k2, k3, k4] None =
     Inr (np_any_ge (convolve2d pieces k1) (int ws) \<or>
          np_any_ge (convolve2d pieces k2) (int ws) \<or>
          np_any_ge (convolve2d pieces k3) (int ws) \<or>
          np_any_ge (convolve2d pieces k4) (int ws))"
  by (simp add: Let_def)

lemma check_win_streak:
  assumes wf: "well_formed h self" and nr: "0 < n_rows self" and ws: "0 < win_streak self"
  shows "check_win h self player_id =
     Inr (streak_spec (n_rows self) (n_columns self) (win_streak self) (h ! grid self) player_id)"
proof -
  have sh: "shape (h ! grid self) (n_rows self) (n_columns self)"
    using wf by (simp add: shape_def wf_len wf_row_length)
  have k: "win_kernels self = make_kernels (win_streak self)"
    using wf by (simp add: well_formed_def)
  show ?thesis
    unfolding check_win_def k make_kernels_eq check_win_loop_four
      win_horizontal[OF sh nr ws] win_vertical[OF sh nr ws]
      win_diagonal1[OF sh nr ws] win_diagonal2[OF sh nr ws]
      streak_spec_iff[OF ws] ..
qed


text \<open>
  Claim C7. On a board with at least one row and one column and a positive
  \<open>win_streak\<close>, \<^verbatim>\<open>check_win\<close> returns true exactly when one of the four
  patterns of length \<open>win_streak\<close> (horizontal, vertical, diagonal down-right, diagonal
  down-left), placed wholly inside the grid, is covered by the player's pieces; the
  zero fill of the convolution never counts a position past the edge. With player 1 on
  row 5, columns 0 to 3, of an otherwise empty default board, \<^verbatim>\<open>check_win(1)\<close> is
  true and \<^verbatim>\<open>check_win(2)\<close> false; on the empty board both are false.
\<close>
theorem check_win_streaks:
  "(well_formed h self \<and> 0 < n_rows self \<and> 0 < n_columns self \<and> 0 < win_streak self \<longrightarrow>
      check_win h self player_id =
        Inr (streak_spec (n_rows self) (n_columns self) (win_streak self)
               (h ! grid self) player_id)) \<and>
   check_win [row5_board] (snd default_engine) 1 = Inr True \<and>
   check_win [row5_board] (snd default_engine) 2 = Inr False \<and>
   check_win (fst default_engine) (snd default_engine) 1 = Inr False \<and>
   check_win (fst default_engine) (snd default_engine) 2 = Inr False"
proof (intro conjI impI)
  assume "well_formed h self \<and> 0 < n_rows self \<and> 0 < n_columns self \<and> 0 < win_streak self"
  then show "check_win h self player_id =
      Inr (streak_spec (n_rows self) (n_columns self) (win_streak self) (h ! grid self) player_id)"
    by (simp add: check_win_streak)
next
  show "check_win [row5_board] (snd default_engine) 1 = Inr True" by code_simp
  show "check_win [row5_board] (snd default_engine) 2 = Inr False" by code_simp
  show "check_win (fst default_engine) (snd default_engine) 1 = Inr False" by code_simp
  show "check_win (fst default_engine) (snd default_engine) 2 = Inr False" by code_simp
qed

theorem check_win_streaks_witness:
  "well_formed [row5_board] (snd default_engine) \<and>
   streak_spec 6 7 4 row5_board 1 \<and>
   \<not> streak_spec 6 7 4 row5_board 2 \<and>
   check_win [row5_board] (snd default_engine) 1 = Inr True \<and>
   check_win [row5_board] (snd default_engine) 2 = Inr False"
proof -
  have wf: "well_formed [row5_board] (snd default_engine)" by code_simp
  have d: "n_rows (snd default_engine) = 6" "n_columns (snd default_engine) = 7"
    "win_streak (snd default_engine) = 4" "grid (snd default_engine) = 0"
    by code_simp+
  have s: "streak_spec 6 7 4 row5_board 1" "\<not> streak_spec 6 7 4 row5_board 2"
    by code_simp+
  show ?thesis
    using wf s check_win_streaks[of "[row5_board]" "snd default_engine" 1, THEN conjunct1]
      check_win_streaks[of "[row5_board]" "snd default_engine" 2, THEN conjunct1]
    by (simp add: d)
qed




end
